theory Spec2Isabelle
  imports Main "HOL-Library.Word"
begin

unbundle bit_operations_syntax

section \<open>The Feistel block transform of cbc.c\<close>

text \<open>
  A C \<open>char\<close> is one byte. The source computes \<open>^\<close> on the \<open>int\<close> promotions of two
  \<open>char\<close>s and stores the result back into a \<open>char\<close>; that is the bitwise exclusive or
  of the two bytes, so a byte is an 8-bit word and \<open>^\<close> is \<open>XOR\<close> on it.
\<close>

type_synonym byte = "8 word"

definition BLOCK_SIZE :: nat where
  "BLOCK_SIZE = 8"

definition ROUNDS :: nat where
  "ROUNDS = 16"

text \<open>\<open>int f (char r, char k) { return k; }\<close>\<close>

definition f :: "byte \<Rightarrow> byte \<Rightarrow> byte" where
  "f r k = k"

text \<open>
  The body of the inner \<open>for\<close> loop of \<open>encryptBlock\<close>, at index \<open>i\<close> with half size
  \<open>k\<close>. The state is the block \<open>bp\<close> and the key cursor: the source advances the pointer
  \<open>kp\<close> itself (\<open>*(kp++)\<close>), the model keeps the key fixed and carries the offset of the
  cursor from the start of the key.
  \<^verbatim>\<open>
      t = *(bp + k + i);
      *(bp + k + i) = *(bp + i) ^ f(*(bp + k + i), *(kp++));
      *(bp + i) = t;
  \<close>
\<close>

definition encrypt_body :: "byte list \<Rightarrow> nat \<Rightarrow> byte list \<times> int \<Rightarrow> nat \<Rightarrow> byte list \<times> int" where
  "encrypt_body key k s i =
     (case s of (bp, kp) \<Rightarrow>
        let t = bp ! (k + i);
            bp1 = bp[k + i := (bp ! i) XOR f (bp ! (k + i)) (key ! nat kp)];
            bp2 = bp1[i := t]
        in (bp2, kp + 1))"

text \<open>One pass of \<open>for (i = 0; i < k; i++)\<close>: one round of the network.\<close>

definition encrypt_round :: "byte list \<Rightarrow> nat \<Rightarrow> byte list \<times> int \<Rightarrow> byte list \<times> int" where
  "encrypt_round key k s = foldl (encrypt_body key k) s [0..<k]"

text \<open>
  \<open>encryptBlock\<close>: \<open>r = ROUNDS\<close>, \<open>k = BLOCK_SIZE >> 1\<close>, and \<open>while (r--)\<close> runs the
  round \<open>ROUNDS\<close> times. The block is changed in place and returned.
\<close>

definition encryptBlock :: "byte list \<Rightarrow> byte list \<Rightarrow> byte list" where
  "encryptBlock bp key =
     (let r = ROUNDS; k = BLOCK_SIZE div 2
      in fst ((encrypt_round key k ^^ r) (bp, 0)))"

text \<open>
  The body of the inner loop of \<open>decryptBlock\<close>:
  \<^verbatim>\<open>
      t = *(bp + i);
      *(bp + i) = *(bp + k + i) ^ f(*(bp + i), *(kp++));
      *(bp + k + i) = t;
  \<close>
\<close>

definition decrypt_body :: "byte list \<Rightarrow> nat \<Rightarrow> byte list \<times> int \<Rightarrow> nat \<Rightarrow> byte list \<times> int" where
  "decrypt_body key k s i =
     (case s of (bp, kp) \<Rightarrow>
        let t = bp ! i;
            bp1 = bp[i := (bp ! (k + i)) XOR f (bp ! i) (key ! nat kp)];
            bp2 = bp1[k + i := t]
        in (bp2, kp + 1))"

text \<open>The inner loop followed by \<open>kp -= 2 * k\<close>.\<close>

definition decrypt_round :: "byte list \<Rightarrow> nat \<Rightarrow> byte list \<times> int \<Rightarrow> byte list \<times> int" where
  "decrypt_round key k s =
     (case foldl (decrypt_body key k) s [0..<k] of (bp, kp) \<Rightarrow> (bp, kp - 2 * int k))"

text \<open>
  \<open>decryptBlock\<close>: the cursor starts at \<open>kp += (r - 1) * k\<close>. After the last round it
  stands 4 bytes before the key and is not read again, hence the cursor is an \<open>int\<close>.
\<close>

definition decryptBlock :: "byte list \<Rightarrow> byte list \<Rightarrow> byte list" where
  "decryptBlock bp key =
     (let r = ROUNDS; k = BLOCK_SIZE div 2
      in fst ((decrypt_round key k ^^ r) (bp, int ((r - 1) * k))))"


section \<open>The environment of the stream operations\<close>

text \<open>
  The stream operations talk to the outside through \<open>read(2)\<close> and \<open>write(2)\<close> only.
  The environment decides what each call returns, so it is part of the input of the model:
  \<^item> \<open>rres\<close> is the result of one \<open>read\<close> call: \<open>RErr\<close> when it returns \<open>-1\<close>,
    \<open>RData c\<close> when it delivers the bytes \<open>c\<close> (none at the end of the stream);
  \<^item> \<open>wres\<close> is the behaviour of one \<open>write\<close> call: \<open>WErr\<close> when it returns \<open>-1\<close>
    and transfers nothing, \<open>WAccept m\<close> when it transfers at most \<open>m\<close> bytes;
  \<^item> a \<open>world\<close> holds the results of the coming reads of standard input (an exhausted
    list is the end of the stream: every further read returns 0), the behaviour of the
    coming writes to standard output (an exhausted list: every further write is complete),
    and the bytes written to standard output so far.
  Messages printed on \<open>stderr\<close> are not part of the model.
\<close>

datatype rres = RErr | RData "byte list"

datatype wres = WErr | WAccept nat

type_synonym world = "rres list \<times> wres list \<times> byte list"

text \<open>A read stores the bytes it delivers at the start of the buffer and leaves the rest.\<close>

definition store :: "byte list \<Rightarrow> byte list \<Rightarrow> byte list" where
  "store d bp = d @ drop (length d) bp"

text \<open>
  \<open>read(fd, bp, count)\<close> with the environment's result \<open>r\<close>: the value returned and the
  buffer afterwards. A read never delivers more than \<open>count\<close> bytes.
\<close>

fun sys_read :: "rres \<Rightarrow> byte list \<Rightarrow> nat \<Rightarrow> int \<times> byte list" where
  "sys_read RErr bp count = (-1, bp)"
| "sys_read (RData c) bp count = (let d = take count c in (int (length d), store d bp))"

text \<open>
  \<open>write(STDOUT, bp, count)\<close>: the value returned, the remaining write behaviours and
  the output afterwards.
\<close>

fun sys_write :: "byte list \<Rightarrow> nat \<Rightarrow> wres list \<times> byte list \<Rightarrow> int \<times> wres list \<times> byte list" where
  "sys_write bp count ([], out) = (int count, [], out @ take count bp)"
| "sys_write bp count (WErr # ws, out) = (-1, ws, out)"
| "sys_write bp count (WAccept m # ws, out) =
     (int (min m count), ws, out @ take (min m count) bp)"

text \<open>\<open>for (i = 0; i < n; bp[i] ^= lbp[i], i++);\<close>\<close>

definition xor_into :: "nat \<Rightarrow> byte list \<Rightarrow> byte list \<Rightarrow> byte list" where
  "xor_into n bp lbp = foldl (\<lambda>b i. b[i := (b ! i) XOR (lbp ! i)]) bp [0..<n]"

text \<open>\<open>memset(bp + off, c, n)\<close>\<close>

definition memset :: "byte list \<Rightarrow> nat \<Rightarrow> byte \<Rightarrow> nat \<Rightarrow> byte list" where
  "memset bp off c n = take off bp @ replicate n c @ drop (off + n) bp"

text \<open>
  What a stream operation returns: \<open>Failure\<close> is the return value \<open>-1\<close>, \<open>Processed n\<close>
  the byte count \<open>n\<close>. (\<open>n\<close> is a C \<open>long\<close>; the model does not bound it.)

  When a read of standard input inside the loop returns \<open>-1\<close>, the source leaves the loop
  with \<open>bytes = -1\<close>, takes the branch \<open>if (bytes)\<close>, calls \<open>memset(bp - 1, 0, 9)\<close> and
  then \<open>write\<close> with the count \<open>(size_t) -1\<close>. What happens then is not fixed by the
  program; the model gives this path the outcome \<open>Unspecified\<close>.
\<close>

datatype outcome = Failure | Processed nat | Unspecified

section \<open>encryptStream\<close>

text \<open>
  The code after the loop of \<open>encryptStream\<close>, with \<open>bytes\<close> the result of the last read:
  \<^verbatim>\<open>
    if (bytes) {
        for (i = 0; i < bytes; bp[i] ^= lbp[i], i++);
        memset(bp + bytes, 0, BLOCK_SIZE - bytes);
        if (write(STDOUT, encryptBlock(bp, kp), bytes) != bytes) { return -1; }
        n += bytes;
    }
    return n;
  \<close>
\<close>

definition encrypt_last ::
  "byte list \<Rightarrow> byte list \<Rightarrow> byte list \<Rightarrow> int \<Rightarrow> nat \<Rightarrow> world \<Rightarrow> outcome \<times> world" where
  "encrypt_last key lbp bp bytes n w =
     (if bytes = 0 then (Processed n, w)
      else if bytes < 0 then (Unspecified, w)
      else case w of (rs, ws, out) \<Rightarrow>
        let m = nat bytes;
            bp1 = xor_into m bp lbp;
            bp2 = memset bp1 m 0 (BLOCK_SIZE - m);
            bp3 = encryptBlock bp2 key
        in case sys_write bp3 m (ws, out) of (ret, ws', out') \<Rightarrow>
             if ret \<noteq> bytes then (Failure, (rs, ws', out'))
             else (Processed (n + m), (rs, ws', out')))"

text \<open>
  The loop of \<open>encryptStream\<close>. \<open>lbp\<close> and \<open>bp\<close> are the contents of the two blocks the
  pointers of these names point to; swapping the pointers swaps the roles of the blocks.
  \<^verbatim>\<open>
    while ((bytes = read(STDIN, bp, BLOCK_SIZE)) == BLOCK_SIZE) {
        for (i = 0; i < BLOCK_SIZE; bp[i] ^= lbp[i], i++);
        if (write(STDOUT, encryptBlock(bp, kp), BLOCK_SIZE) != BLOCK_SIZE) { return -1; }
        t = lbp; lbp = bp; bp = t;
        n += BLOCK_SIZE;
    }
  \<close>
\<close>

fun encrypt_loop ::
  "byte list \<Rightarrow> byte list \<Rightarrow> byte list \<Rightarrow> nat \<Rightarrow> world \<Rightarrow> outcome \<times> world" where
  "encrypt_loop key lbp bp n ([], ws, out) = encrypt_last key lbp bp 0 n ([], ws, out)"
| "encrypt_loop key lbp bp n (r # rs, ws, out) =
     (case sys_read r bp BLOCK_SIZE of (bytes, bp1) \<Rightarrow>
        if bytes = int BLOCK_SIZE then
          (let bp2 = xor_into BLOCK_SIZE bp1 lbp;
               bp3 = encryptBlock bp2 key
           in case sys_write bp3 BLOCK_SIZE (ws, out) of (ret, ws', out') \<Rightarrow>
                if ret \<noteq> int BLOCK_SIZE then (Failure, (rs, ws', out'))
                else encrypt_loop key bp3 lbp (n + BLOCK_SIZE) (rs, ws', out'))
        else encrypt_last key lbp bp1 bytes n (rs, ws, out))"

text \<open>
  \<open>encryptStream\<close>. \<open>buf\<close> is the content of the local array \<open>buf[2 * BLOCK_SIZE]\<close> at
  entry (C does not initialise it); \<open>lbp = buf\<close> and \<open>bp = lbp + BLOCK_SIZE\<close>.
  \<open>ent\<close> is the entropy source: \<open>None\<close> when \<open>open(PATH_RANDOM, ...)\<close> returns \<open>-1\<close>,
  otherwise the result of the read of \<open>BLOCK_SIZE\<close> bytes from it. The value returned by
  the write of the encrypted initialisation vector is not inspected.
  \<^verbatim>\<open>
    if ((rfp = open(PATH_RANDOM, O_RDONLY, 0)) == -1 ||
        (bytes = read(rfp, lbp, BLOCK_SIZE)) != BLOCK_SIZE) {
        return -1;
    } else {
        write(STDOUT, encryptBlock(lbp, kp), BLOCK_SIZE);
    }
  \<close>
\<close>

definition encryptStream ::
  "byte list \<Rightarrow> byte list \<Rightarrow> rres option \<Rightarrow> world \<Rightarrow> outcome \<times> world" where
  "encryptStream key buf ent w =
     (let lbp = take BLOCK_SIZE buf;
          bp = take BLOCK_SIZE (drop BLOCK_SIZE buf)
      in case ent of
           None \<Rightarrow> (Failure, w)
         | Some r \<Rightarrow>
             (case sys_read r lbp BLOCK_SIZE of (bytes, lbp1) \<Rightarrow>
                if bytes \<noteq> int BLOCK_SIZE then (Failure, w)
                else case w of (rs, ws, out) \<Rightarrow>
                  let lbp2 = encryptBlock lbp1 key
                  in case sys_write lbp2 BLOCK_SIZE (ws, out) of (ret, ws', out') \<Rightarrow>
                       encrypt_loop key lbp2 bp 0 (rs, ws', out')))"

section \<open>decryptStream\<close>

text \<open>
  The code after the loop of \<open>decryptStream\<close>:
  \<^verbatim>\<open>
    if (bytes) {
        for (i = 0; i < bytes; bp[i] ^= lbp[i], i++);
        memset(bp + bytes, 0, BLOCK_SIZE - bytes);
        if (write(STDOUT, decryptBlock(bp, kp), bytes) != bytes) { return -1; }
        n += bytes;
    }
    return n;
  \<close>
\<close>

definition decrypt_last ::
  "byte list \<Rightarrow> byte list \<Rightarrow> byte list \<Rightarrow> int \<Rightarrow> nat \<Rightarrow> world \<Rightarrow> outcome \<times> world" where
  "decrypt_last key lbp bp bytes n w =
     (if bytes = 0 then (Processed n, w)
      else if bytes < 0 then (Unspecified, w)
      else case w of (rs, ws, out) \<Rightarrow>
        let m = nat bytes;
            bp1 = xor_into m bp lbp;
            bp2 = memset bp1 m 0 (BLOCK_SIZE - m);
            bp3 = decryptBlock bp2 key
        in case sys_write bp3 m (ws, out) of (ret, ws', out') \<Rightarrow>
             if ret \<noteq> bytes then (Failure, (rs, ws', out'))
             else (Processed (n + m), (rs, ws', out')))"

text \<open>
  The loop of \<open>decryptStream\<close>. The third block \<open>obp\<close> is overwritten as a whole by
  \<open>memcpy\<close> in every pass, so its earlier content is not carried along.
  \<^verbatim>\<open>
    while ((bytes = read(STDIN, bp, BLOCK_SIZE)) == BLOCK_SIZE) {
        memcpy(obp, bp, BLOCK_SIZE);
        for (i = 0; i < BLOCK_SIZE; obp[i] ^= lbp[i], i++);
        if (write(STDOUT, decryptBlock(obp, kp), BLOCK_SIZE) == -1) { return -1; }
        t = lbp; lbp = bp; bp = t;
        n += BLOCK_SIZE;
    }
  \<close>
\<close>

fun decrypt_loop ::
  "byte list \<Rightarrow> byte list \<Rightarrow> byte list \<Rightarrow> nat \<Rightarrow> world \<Rightarrow> outcome \<times> world" where
  "decrypt_loop key lbp bp n ([], ws, out) = decrypt_last key lbp bp 0 n ([], ws, out)"
| "decrypt_loop key lbp bp n (r # rs, ws, out) =
     (case sys_read r bp BLOCK_SIZE of (bytes, bp1) \<Rightarrow>
        if bytes = int BLOCK_SIZE then
          (let obp = take BLOCK_SIZE bp1;
               obp1 = xor_into BLOCK_SIZE obp lbp;
               obp2 = decryptBlock obp1 key
           in case sys_write obp2 BLOCK_SIZE (ws, out) of (ret, ws', out') \<Rightarrow>
                if ret = -1 then (Failure, (rs, ws', out'))
                else decrypt_loop key bp1 lbp (n + BLOCK_SIZE) (rs, ws', out'))
        else decrypt_last key lbp bp1 bytes n (rs, ws, out))"

text \<open>
  \<open>decryptStream\<close>. \<open>buf\<close> is the content of \<open>buf[3 * BLOCK_SIZE]\<close> at entry.
  \<^verbatim>\<open>
    if ((bytes = read(STDIN, lbp, BLOCK_SIZE)) != BLOCK_SIZE) { return -1; }
  \<close>
\<close>

fun decryptStream :: "byte list \<Rightarrow> byte list \<Rightarrow> world \<Rightarrow> outcome \<times> world" where
  "decryptStream key buf ([], ws, out) = (Failure, ([], ws, out))"
| "decryptStream key buf (r # rs, ws, out) =
     (let lbp = take BLOCK_SIZE buf;
          bp = take BLOCK_SIZE (drop BLOCK_SIZE buf)
      in case sys_read r lbp BLOCK_SIZE of (bytes, lbp1) \<Rightarrow>
           if bytes \<noteq> int BLOCK_SIZE then (Failure, (rs, ws, out))
           else decrypt_loop key lbp1 bp 0 (rs, ws, out))"

section \<open>main\<close>






section \<open>Notions used to state the properties\<close>

text \<open>Byte-wise exclusive or of two byte strings (up to the length of the shorter one).\<close>

definition xor_bytes :: "byte list \<Rightarrow> byte list \<Rightarrow> byte list" where
  "xor_bytes xs ys = map2 (XOR) xs ys"

text \<open>The key bytes of round \<open>r\<close>: \<open>BLOCK_SIZE / 2\<close> bytes from offset \<open>r * (BLOCK_SIZE / 2)\<close>.\<close>

definition key_slice :: "byte list \<Rightarrow> nat \<Rightarrow> byte list" where
  "key_slice key r = take (BLOCK_SIZE div 2) (drop (r * (BLOCK_SIZE div 2)) key)"

text \<open>
  The mask of a key: its left half is the exclusive or of the key slices of the even
  rounds, its right half that of the odd rounds.
\<close>

definition key_mask :: "byte list \<Rightarrow> byte list" where
  "key_mask key =
     foldr xor_bytes (map (key_slice key) (filter even [0..<ROUNDS]))
       (replicate (BLOCK_SIZE div 2) 0) @
     foldr xor_bytes (map (key_slice key) (filter odd [0..<ROUNDS]))
       (replicate (BLOCK_SIZE div 2) 0)"

text \<open>
  The Encrypt block transform as the specification words it, on the two halves of the
  block: for rounds \<open>r = 0..15\<close> and half-indices \<open>i = 0..3\<close> in order,
  \<open>t = right[i]; right[i] = left[i] XOR RoundFunction(right[i], key[r*4 + i]); left[i] = t\<close>,
  where the round function returns the key byte.
\<close>

definition RoundFunction :: "byte \<Rightarrow> byte \<Rightarrow> byte" where
  "RoundFunction r k = k"

definition spec_encrypt_step ::
  "byte list \<Rightarrow> nat \<Rightarrow> byte list \<times> byte list \<Rightarrow> nat \<Rightarrow> byte list \<times> byte list" where
  "spec_encrypt_step key r s i =
     (case s of (left, right) \<Rightarrow>
        let t = right ! i;
            right' = right[i := (left ! i) XOR RoundFunction (right ! i) (key ! (r * 4 + i))];
            left' = left[i := t]
        in (left', right'))"

definition spec_encrypt :: "byte list \<Rightarrow> byte list \<Rightarrow> byte list" where
  "spec_encrypt B key =
     (case foldl (\<lambda>s r. foldl (spec_encrypt_step key r) s [0..<4]) (take 4 B, drop 4 B) [0..<16]
      of (left, right) \<Rightarrow> left @ right)"

text \<open>
  The reads of a stream that delivers the bytes \<open>P\<close> in full: every read of
  \<open>BLOCK_SIZE\<close> bytes returns the next \<open>BLOCK_SIZE\<close> bytes, the last one what is left
  (as for a regular file); after that the stream is at its end.
\<close>

function file_reads :: "byte list \<Rightarrow> rres list" where
  "file_reads P = (if P = [] then [] else RData (take BLOCK_SIZE P) # file_reads (drop BLOCK_SIZE P))"
  by pat_completeness auto
termination
  by (relation "measure length") (auto simp: BLOCK_SIZE_def)

declare file_reads.simps [simp del]

text \<open>The next write of \<open>count\<close> bytes is complete.\<close>

fun full_write :: "wres list \<Rightarrow> nat \<Rightarrow> bool" where
  "full_write [] count = True"
| "full_write (WErr # ws) count = False"
| "full_write (WAccept m # ws) count = (count \<le> m)"

text \<open>
  The handling of the final partial chunk in decryption as the specification words it:
  zero-pad the chunk to \<open>BLOCK_SIZE\<close>, XOR the padded chunk with the previous block, no
  block transform, emit only the original number of bytes.
\<close>

definition spec_decrypt_tail :: "byte list \<Rightarrow> byte list \<Rightarrow> byte list" where
  "spec_decrypt_tail prev c =
     take (length c) (xor_bytes (c @ replicate (BLOCK_SIZE - length c) 0) prev)"


text \<open>The bytes on standard output after a run.\<close>

definition stdout_of :: "outcome \<times> world \<Rightarrow> byte list" where
  "stdout_of res = snd (snd (snd res))"

section \<open>The block transform is the exclusive or with the key mask\<close>

lemma rep4: "replicate 4 x = [x, x, x, x]"
  by (simp add: numeral_eq_Suc)

lemma upt4: "[0..<4] = [0, 1, 2, 3]"
  by (simp add: upt_rec)

lemma upt16: "[0..<16] = [0, 1, 2, 3, 4, 5, 6, 7, 8, 9, 10, 11, 12, 13, 14, 15]"
  by (simp add: upt_rec)

lemma funpow16:
  "(g ^^ 16) x = g (g (g (g (g (g (g (g (g (g (g (g (g (g (g (g x)))))))))))))))"
  by (simp add: numeral_eq_Suc)

lemma take4:
  "n + 4 \<le> length xs \<Longrightarrow>
   take 4 (drop n xs) = [xs ! n, xs ! (n + 1), xs ! (n + 2), xs ! (n + 3)]"
  by (auto simp: list_eq_iff_nth_eq less_Suc_eq eval_nat_numeral)

lemma key_slice_nth:
  "length key = 64 \<Longrightarrow> r < 16 \<Longrightarrow>
   key_slice key r = [key ! (r * 4), key ! (r * 4 + 1), key ! (r * 4 + 2), key ! (r * 4 + 3)]"
  unfolding key_slice_def BLOCK_SIZE_def by (simp add: take4 del: take_drop)

lemma block8: "length (B::'a list) = 8 \<Longrightarrow> \<exists>a b c d e g h j. B = [a, b, c, d, e, g, h, j]"
  by (auto simp: eval_nat_numeral length_Suc_conv)

text \<open>One round on an explicit block: the halves swap and the key bytes enter.\<close>

lemma enc_round8:
  "encrypt_round key 4 ([a, b, c, d, e, g, h, j], kp) =
     ([e, g, h, j, a XOR key ! nat kp, b XOR key ! nat (kp + 1),
       c XOR key ! nat (kp + 2), d XOR key ! nat (kp + 3)], kp + 4)"
  by (simp add: encrypt_round_def encrypt_body_def f_def upt4 Let_def add.commute)

lemma dec_round8:
  "decrypt_round key 4 ([a, b, c, d, e, g, h, j], kp) =
     ([e XOR key ! nat kp, g XOR key ! nat (kp + 1), h XOR key ! nat (kp + 2),
       j XOR key ! nat (kp + 3), a, b, c, d], kp - 4)"
  by (simp add: decrypt_round_def decrypt_body_def f_def upt4 Let_def add.commute)

lemma spec_round8:
  "foldl (spec_encrypt_step key r) ([a, b, c, d], [e, g, h, j]) [0..<4] =
     ([e, g, h, j], [a XOR key ! (r * 4), b XOR key ! (r * 4 + 1),
                     c XOR key ! (r * 4 + 2), d XOR key ! (r * 4 + 3)])"
  by (simp add: spec_encrypt_step_def RoundFunction_def upt4 Let_def)

lemmas key_mask64 = key_mask_def upt16 key_slice_nth rep4

lemma enc8:
  "length key = 64 \<Longrightarrow>
   encryptBlock [a, b, c, d, e, g, h, j] key = xor_bytes [a, b, c, d, e, g, h, j] (key_mask key)"
  apply (simp add: encryptBlock_def ROUNDS_def BLOCK_SIZE_def funpow16 enc_round8 key_mask64
      xor_bytes_def xor.assoc)
  apply (simp add: numeral_2_eq_2)
  done

lemma dec8:
  "length key = 64 \<Longrightarrow>
   decryptBlock [a, b, c, d, e, g, h, j] key = xor_bytes [a, b, c, d, e, g, h, j] (key_mask key)"
  apply (simp add: decryptBlock_def ROUNDS_def BLOCK_SIZE_def funpow16 dec_round8 key_mask64
      xor_bytes_def)
  apply (simp add: numeral_2_eq_2 ac_simps)
  done

lemma spec8:
  "encryptBlock [a, b, c, d, e, g, h, j] key = spec_encrypt [a, b, c, d, e, g, h, j] key"
  apply (simp add: encryptBlock_def ROUNDS_def BLOCK_SIZE_def funpow16 enc_round8
      spec_encrypt_def upt16 spec_round8)
  apply (simp add: numeral_2_eq_2)
  done

lemma encryptBlock_mask:
  "length B = 8 \<Longrightarrow> length key = 64 \<Longrightarrow> encryptBlock B key = xor_bytes B (key_mask key)"
  using block8[of B] enc8 by auto

lemma decryptBlock_mask:
  "length B = 8 \<Longrightarrow> length key = 64 \<Longrightarrow> decryptBlock B key = xor_bytes B (key_mask key)"
  using block8[of B] dec8 by auto

lemma length_key_mask: "length key = 64 \<Longrightarrow> length (key_mask key) = 8"
  by (simp add: key_mask64 xor_bytes_def ROUNDS_def BLOCK_SIZE_def)

lemma length_xor_bytes: "length (xor_bytes xs ys) = min (length xs) (length ys)"
  by (simp add: xor_bytes_def)

lemma xor_bytes_cancel: "length xs \<le> length m \<Longrightarrow> xor_bytes (xor_bytes xs m) m = xs"
  by (simp add: xor_bytes_def list_eq_iff_nth_eq xor.assoc)

lemma xor_bytes_swap: "xor_bytes (xor_bytes xs ys) zs = xor_bytes (xor_bytes xs zs) ys"
  by (auto simp add: xor_bytes_def list_eq_iff_nth_eq ac_simps)

text \<open>
  C3: for every 8-byte block \<open>B\<close> and every 64-byte key, decrypting the encrypted block
  with the same key gives \<open>B\<close> back; the witness is the block \<open>[0,1,2,3,4,5,6,7]\<close> with
  the key bytes \<open>0..63\<close>.
\<close>

theorem decryptBlock_encryptBlock:
  assumes "length B = 8" and "length key = 64"
  shows "decryptBlock (encryptBlock B key) key = B"
proof -
  have m: "length (key_mask key) = 8"
    using assms by (simp add: length_key_mask)
  have e: "encryptBlock B key = xor_bytes B (key_mask key)"
    using assms by (rule encryptBlock_mask)
  have "length (xor_bytes B (key_mask key)) = 8"
    using assms m by (simp add: length_xor_bytes)
  then have "decryptBlock (xor_bytes B (key_mask key)) key
               = xor_bytes (xor_bytes B (key_mask key)) (key_mask key)"
    using assms by (simp add: decryptBlock_mask)
  also have "\<dots> = B"
    using assms m by (simp add: xor_bytes_cancel)
  finally show ?thesis unfolding e .
qed

theorem decryptBlock_encryptBlock_witness:
  "length [0, 1, 2, 3, 4, 5, 6, 7 :: byte] = 8 \<and> length (map of_nat [0..<64] :: byte list) = 64 \<and>
   decryptBlock (encryptBlock [0, 1, 2, 3, 4, 5, 6, 7] (map of_nat [0..<64])) (map of_nat [0..<64])
     = [0, 1, 2, 3, 4, 5, 6, 7]"
  using decryptBlock_encryptBlock [of "[0, 1, 2, 3, 4, 5, 6, 7]" "map of_nat [0..<64]"]
  by simp

text \<open>
  C8: the round function returns its key byte, and on every 8-byte block and 64-byte key
  \<open>encryptBlock\<close> computes what the specification's description of the Encrypt
  transform computes (rounds 0..15, half-indices 0..3, key byte \<open>r*4 + i\<close>).
\<close>

theorem encryptBlock_refines_spec:
  assumes "length B = 8" and "length key = 64"
  shows "f r k = k \<and> f r k = RoundFunction r k \<and> encryptBlock B key = spec_encrypt B key"
  using block8 [OF assms(1)] spec8 by (auto simp: f_def RoundFunction_def)

theorem encryptBlock_refines_spec_witness:
  "length [10, 20, 30, 40, 50, 60, 70, 80 :: byte] = 8 \<and>
   length (98 # replicate 63 97 :: byte list) = 64 \<and> f 7 9 = 9 \<and>
   encryptBlock [10, 20, 30, 40, 50, 60, 70, 80] (98 # replicate 63 97)
     = spec_encrypt [10, 20, 30, 40, 50, 60, 70, 80] (98 # replicate 63 97)"
proof -
  have a: "length [10, 20, 30, 40, 50, 60, 70, 80 :: byte] = 8"
    by simp
  have b: "length (98 # replicate 63 97 :: byte list) = 64"
    by simp
  from a b encryptBlock_refines_spec [OF a b, of 7 9] show ?thesis
    by blast
qed

text \<open>
  C10: on every 8-byte block and 64-byte key, \<open>encryptBlock\<close> and \<open>decryptBlock\<close> are the
  same function, the exclusive or with the key mask; hence each is its own inverse.
\<close>

theorem block_transform_is_mask:
  assumes "length B = 8" and "length key = 64"
  shows "encryptBlock B key = xor_bytes B (key_mask key) \<and>
         decryptBlock B key = xor_bytes B (key_mask key) \<and>
         encryptBlock B key = decryptBlock B key \<and>
         encryptBlock (encryptBlock B key) key = B \<and>
         decryptBlock (decryptBlock B key) key = B"
proof -
  have m: "length (key_mask key) = 8"
    using assms by (simp add: length_key_mask)
  have l: "length (xor_bytes B (key_mask key)) = 8"
    using assms m by (simp add: length_xor_bytes)
  have c: "xor_bytes (xor_bytes B (key_mask key)) (key_mask key) = B"
    using assms m by (simp add: xor_bytes_cancel)
  show ?thesis
    using assms l c by (simp add: encryptBlock_mask decryptBlock_mask)
qed

theorem block_transform_is_mask_witness:
  "length [1, 2, 3, 4, 5, 6, 7, 8 :: byte] = 8 \<and> length (98 # replicate 63 97 :: byte list) = 64 \<and>
   encryptBlock [1, 2, 3, 4, 5, 6, 7, 8] (98 # replicate 63 97)
     = xor_bytes [1, 2, 3, 4, 5, 6, 7, 8] (key_mask (98 # replicate 63 97)) \<and>
   decryptBlock [1, 2, 3, 4, 5, 6, 7, 8] (98 # replicate 63 97)
     = xor_bytes [1, 2, 3, 4, 5, 6, 7, 8] (key_mask (98 # replicate 63 97)) \<and>
   encryptBlock (encryptBlock [1, 2, 3, 4, 5, 6, 7, 8] (98 # replicate 63 97)) (98 # replicate 63 97)
     = [1, 2, 3, 4, 5, 6, 7, 8]"
proof -
  have a: "length [1, 2, 3, 4, 5, 6, 7, 8 :: byte] = 8"
    by simp
  have b: "length (98 # replicate 63 97 :: byte list) = 64"
    by simp
  from a b block_transform_is_mask [OF a b] show ?thesis
    by blast
qed

section \<open>The stream operations\<close>

text \<open>
  One pass of each loop, and the code after each loop, in closed form: the \<open>for\<close> loop
  is the byte-wise XOR of the leading bytes, and with a 64-byte key the block transform is
  the XOR with the key mask.
\<close>

lemma sys_write_full:
  "full_write ws count \<Longrightarrow> sys_write bp count (ws, out) = (int count, tl ws, out @ take count bp)"
  by (cases "(ws, count)" rule: full_write.cases) (auto simp: min_def)

lemma xor_into_eq:
  "n \<le> length bp \<Longrightarrow> n \<le> length lbp \<Longrightarrow>
   xor_into n bp lbp = xor_bytes (take n bp) (take n lbp) @ drop n bp"
proof (induction n)
  case 0
  then show ?case by (simp add: xor_into_def xor_bytes_def)
next
  case (Suc n)
  let ?h = "xor_bytes (take n bp) (take n lbp)"
  from Suc have IH: "xor_into n bp lbp = ?h @ drop n bp"
    by simp
  have len: "length ?h = n"
    using Suc.prems by (simp add: xor_bytes_def)
  have dr: "drop n bp = bp ! n # drop (Suc n) bp"
    using Suc.prems by (simp add: Cons_nth_drop_Suc)
  have tk: "take (Suc n) bp = take n bp @ [bp ! n]" "take (Suc n) lbp = take n lbp @ [lbp ! n]"
    using Suc.prems by (simp_all add: take_Suc_conv_app_nth)
  have "xor_into (Suc n) bp lbp = (xor_into n bp lbp)[n := (xor_into n bp lbp ! n) XOR (lbp ! n)]"
    by (simp add: xor_into_def)
  also have "\<dots> = ?h @ ((bp ! n) XOR (lbp ! n)) # drop (Suc n) bp"
    unfolding IH using len by (simp add: list_update_append nth_append dr)
  also have "\<dots> = xor_bytes (take (Suc n) bp) (take (Suc n) lbp) @ drop (Suc n) bp"
    unfolding tk using Suc.prems by (simp add: xor_bytes_def)
  finally show ?case .
qed

lemma xor_into_block:
  "length bp = 8 \<Longrightarrow> length lbp = 8 \<Longrightarrow> xor_into 8 bp lbp = xor_bytes bp lbp"
  by (simp add: xor_into_eq xor_bytes_def)

lemma dec_full_step:
  assumes "length key = 64" "length lbp = 8" "length bp \<le> 8" "length c = 8" "full_write ws 8"
  shows "decrypt_loop key lbp bp n (RData c # rs, ws, out) =
         decrypt_loop key c lbp (n + 8) (rs, tl ws, out @ xor_bytes (xor_bytes c lbp) (key_mask key))"
  using assms
  by (simp add: BLOCK_SIZE_def store_def xor_into_block decryptBlock_mask length_xor_bytes
      sys_write_full length_key_mask)

lemma enc_full_step:
  assumes "length key = 64" "length lbp = 8" "length bp \<le> 8" "length c = 8" "full_write ws 8"
  shows "encrypt_loop key lbp bp n (RData c # rs, ws, out) =
         encrypt_loop key (xor_bytes (xor_bytes c lbp) (key_mask key)) lbp (n + 8)
           (rs, tl ws, out @ xor_bytes (xor_bytes c lbp) (key_mask key))"
  using assms
  by (simp add: BLOCK_SIZE_def store_def xor_into_block encryptBlock_mask length_xor_bytes
      sys_write_full length_key_mask Let_def)

lemma file_reads_Nil: "file_reads [] = []"
  by (simp add: file_reads.simps)

lemma file_reads_full:
  "length c = 8 \<Longrightarrow> file_reads (c @ X) = RData c # file_reads X"
  by (subst file_reads.simps) (auto simp: BLOCK_SIZE_def)

lemma file_reads_short:
  "0 < length c \<Longrightarrow> length c < 8 \<Longrightarrow> file_reads c = [RData c]"
  by (subst file_reads.simps) (auto simp: BLOCK_SIZE_def file_reads_Nil)

lemma tail_block:
  assumes "0 < length c" "length c < 8" "length lbp = 8" "length bp \<le> 8"
  shows "memset (xor_into (length c) (store c bp) lbp) (length c) 0 (8 - length c)
           = xor_bytes c lbp @ replicate (8 - length c) 0"
proof -
  have "xor_into (length c) (store c bp) lbp
          = xor_bytes c (take (length c) lbp) @ drop (length c) bp"
    using assms by (simp add: xor_into_eq store_def)
  moreover have "xor_bytes c (take (length c) lbp) = xor_bytes c lbp"
    by (simp add: xor_bytes_def list_eq_iff_nth_eq)
  moreover have "length (xor_bytes c lbp) = length c"
    using assms by (simp add: length_xor_bytes)
  ultimately show ?thesis
    using assms by (simp add: memset_def)
qed

lemma xor_bytes_append_take:
  "length xs \<le> length m \<Longrightarrow> take (length xs) (xor_bytes (xs @ ys) m) = xor_bytes xs m"
  by (simp add: xor_bytes_def list_eq_iff_nth_eq nth_append)

lemma dec_part_step:
  assumes "0 < length c" "length c < 8" "length lbp = 8" "length bp \<le> 8"
    and "full_write ws (length c)"
  shows "decrypt_loop key lbp bp n (RData c # rs, ws, out) =
         (Processed (n + length c), (rs, tl ws, out @ take (length c)
            (decryptBlock (xor_bytes c lbp @ replicate (8 - length c) 0) key)))"
  using assms tail_block [OF assms(1-4)]
  by (simp add: BLOCK_SIZE_def decrypt_last_def sys_write_full Let_def)

lemma enc_part_step:
  assumes "0 < length c" "length c < 8" "length lbp = 8" "length bp \<le> 8"
    and "full_write ws (length c)"
  shows "encrypt_loop key lbp bp n (RData c # rs, ws, out) =
         (Processed (n + length c), (rs, tl ws, out @ take (length c)
            (encryptBlock (xor_bytes c lbp @ replicate (8 - length c) 0) key)))"
  using assms tail_block [OF assms(1-4)]
  by (simp add: BLOCK_SIZE_def encrypt_last_def sys_write_full Let_def)

lemma tail_mask:
  assumes "length key = 64" "length c < 8" "length lbp = 8"
  shows "take (length c) (xor_bytes (xor_bytes c lbp @ replicate (8 - length c) 0) (key_mask key))
           = xor_bytes (xor_bytes c lbp) (key_mask key)"
proof -
  have "length (xor_bytes c lbp) = length c"
    using assms by (simp add: length_xor_bytes)
  then show ?thesis
    using assms xor_bytes_append_take [of "xor_bytes c lbp" "key_mask key" "replicate (8 - length c) 0"]
    by (simp add: length_key_mask)
qed

lemma chain_cancel:
  assumes "length c \<le> 8" "length lbp = 8" "length m = 8"
  shows "xor_bytes (xor_bytes (xor_bytes (xor_bytes c lbp) m) lbp) m = c"
proof -
  have "xor_bytes (xor_bytes (xor_bytes c lbp) m) lbp = xor_bytes (xor_bytes (xor_bytes c lbp) lbp) m"
    by (rule xor_bytes_swap)
  also have "\<dots> = xor_bytes c m"
    using assms by (simp add: xor_bytes_cancel)
  finally show ?thesis
    using assms by (simp add: xor_bytes_cancel)
qed

declare encrypt_loop.simps [simp del] decrypt_loop.simps [simp del]

text \<open>
  The two loops on a stream delivered in full, by induction over its 8-byte chunks: from
  any chain state \<open>lbp\<close> the encryption loop consumes \<open>P\<close> and writes some \<open>X\<close> of
  the same length, and from the same chain state the decryption loop turns \<open>X\<close> back
  into \<open>P\<close>.
\<close>

lemma loops_roundtrip:
  assumes key: "length key = 64"
  shows "length lbp = 8 \<Longrightarrow> length bp \<le> 8 \<Longrightarrow>
    \<exists>X. length X = length P \<and>
      encrypt_loop key lbp bp n (file_reads P, [], out) = (Processed (n + length P), ([], [], out @ X)) \<and>
      (\<forall>bp' n' out'. length bp' \<le> 8 \<longrightarrow>
         decrypt_loop key lbp bp' n' (file_reads X, [], out') = (Processed (n' + length P), ([], [], out' @ P)))"
proof (induction P arbitrary: lbp bp n out rule: file_reads.induct)
  case (1 P)
  note lbp = \<open>length lbp = 8\<close> and bp = \<open>length bp \<le> 8\<close>
  let ?m = "key_mask key"
  have m: "length ?m = 8"
    using key by (rule length_key_mask)
  consider (empty) "P = []" | (short) "0 < length P" "length P < 8" | (full) "8 \<le> length P"
    by (cases "P = []"; cases "length P < 8") auto
  then show ?case
  proof cases
    case empty
    have "encrypt_loop key lbp bp n (file_reads [], [], out) = (Processed n, ([], [], out))"
      by (simp add: file_reads_Nil encrypt_last_def encrypt_loop.simps)
    moreover have "\<And>bp' n' out'. decrypt_loop key lbp bp' n' (file_reads [], [], out') = (Processed n', ([], [], out'))"
      by (simp add: file_reads_Nil decrypt_last_def decrypt_loop.simps)
    ultimately show ?thesis
      using empty by auto
  next
    case short
    let ?e = "xor_bytes (xor_bytes P lbp) ?m"
    have le: "length ?e = length P"
      using short lbp m by (simp add: length_xor_bytes)
    have blk: "length (xor_bytes P lbp @ replicate (8 - length P) 0) = 8"
      using short lbp by (simp add: length_xor_bytes)
    have enc: "encrypt_loop key lbp bp n (file_reads P, [], out) = (Processed (n + length P), ([], [], out @ ?e))"
      using short lbp bp key blk
      by (simp add: file_reads_short enc_part_step encryptBlock_mask tail_mask)
    have blk': "length (xor_bytes ?e lbp @ replicate (8 - length ?e) 0) = 8"
      using short lbp le by (simp add: length_xor_bytes)
    have dec: "decrypt_loop key lbp bp' n' (file_reads ?e, [], out') = (Processed (n' + length P), ([], [], out' @ P))"
      if "length bp' \<le> 8" for bp' n' out'
    proof -
      have "decrypt_loop key lbp bp' n' (file_reads ?e, [], out')
              = (Processed (n' + length ?e), ([], [], out' @ take (length ?e)
                   (decryptBlock (xor_bytes ?e lbp @ replicate (8 - length ?e) 0) key)))"
        using short lbp le that by (simp add: file_reads_short dec_part_step)
      also have "take (length ?e) (decryptBlock (xor_bytes ?e lbp @ replicate (8 - length ?e) 0) key)
                   = xor_bytes (xor_bytes ?e lbp) ?m"
        using short lbp le key blk' tail_mask [of key ?e lbp]
        by (simp add: decryptBlock_mask)
      also have "xor_bytes (xor_bytes ?e lbp) ?m = P"
        using short lbp m by (simp add: chain_cancel)
      finally show ?thesis
        using le by simp
    qed
    from le enc dec show ?thesis
      by blast
  next
    case full
    let ?c = "take 8 P" and ?r = "drop 8 P"
    let ?e = "xor_bytes (xor_bytes ?c lbp) ?m"
    have P: "P = ?c @ ?r" and lc: "length ?c = 8"
      using full by simp_all
    have le: "length ?e = 8"
      using lc lbp m by (simp add: length_xor_bytes)
    have "P \<noteq> []"
      using full by auto
    from 1(1) [OF this, of ?e lbp "n + 8" "out @ ?e"] le lbp
    obtain X where X: "length X = length ?r"
      "encrypt_loop key ?e lbp (n + 8) (file_reads ?r, [], out @ ?e)
         = (Processed (n + 8 + length ?r), ([], [], (out @ ?e) @ X))"
      "\<And>bp' n' out'. length bp' \<le> 8 \<Longrightarrow>
         decrypt_loop key ?e bp' n' (file_reads X, [], out')
           = (Processed (n' + length ?r), ([], [], out' @ ?r))"
      by (auto simp: BLOCK_SIZE_def)
    have len: "length (?e @ X) = length P"
      using le X(1) full by simp
    have "encrypt_loop key lbp bp n (file_reads P, [], out)
            = encrypt_loop key lbp bp n (RData ?c # file_reads ?r, [], out)"
      using file_reads_full [OF lc, of ?r] by simp
    also have "\<dots> = encrypt_loop key ?e lbp (n + 8) (file_reads ?r, [], out @ ?e)"
      using key lbp bp lc by (simp add: enc_full_step)
    also have "\<dots> = (Processed (n + length P), ([], [], out @ ?e @ X))"
      using X(2) full by simp
    finally have enc: "encrypt_loop key lbp bp n (file_reads P, [], out)
            = (Processed (n + length P), ([], [], out @ ?e @ X))" .
    have dec: "decrypt_loop key lbp bp' n' (file_reads (?e @ X), [], out')
                 = (Processed (n' + length P), ([], [], out' @ P))"
      if "length bp' \<le> 8" for bp' n' out'
    proof -
      have "decrypt_loop key lbp bp' n' (file_reads (?e @ X), [], out')
              = decrypt_loop key lbp bp' n' (RData ?e # file_reads X, [], out')"
        using file_reads_full [OF le, of X] by simp
      also have "\<dots> = decrypt_loop key ?e lbp (n' + 8)
                          (file_reads X, [], out' @ xor_bytes (xor_bytes ?e lbp) ?m)"
        using key lbp le that by (simp add: dec_full_step)
      also have "xor_bytes (xor_bytes ?e lbp) ?m = ?c"
        using lc lbp m by (simp add: chain_cancel)
      also have "decrypt_loop key ?e lbp (n' + 8) (file_reads X, [], out' @ ?c)
                   = (Processed (n' + 8 + length ?r), ([], [], (out' @ ?c) @ ?r))"
        using X(3) [of lbp "n' + 8" "out' @ ?c"] lbp by simp
      finally show ?thesis
        using full by simp
    qed
    from len enc dec show ?thesis
      by blast
  qed
qed


lemma store_block: "length d = 8 \<Longrightarrow> store d (take 8 b) = d"
  by (simp add: store_def)

lemma length_encryptBlock:
  "length B = 8 \<Longrightarrow> length key = 64 \<Longrightarrow> length (encryptBlock B key) = 8"
  by (simp add: encryptBlock_mask length_xor_bytes length_key_mask)

lemma encryptStream_start:
  assumes "length iv = 8"
  shows "encryptStream key buf (Some (RData iv)) (rs, [], []) =
         encrypt_loop key (encryptBlock iv key) (take 8 (drop 8 buf)) 0 (rs, [], take 8 (encryptBlock iv key))"
  using assms by (simp add: encryptStream_def BLOCK_SIZE_def store_block Let_def)

lemma decryptStream_start:
  assumes "length e = 8"
  shows "decryptStream key buf (RData e # rs, ws, out) =
         decrypt_loop key e (take 8 (drop 8 buf)) 0 (rs, ws, out)"
  using assms by (simp add: BLOCK_SIZE_def store_block Let_def)

lemma streams_roundtrip:
  assumes key: "length key = 64" and iv: "length iv = 8"
  shows "\<exists>X. length X = length P \<and>
           encryptStream key buf (Some (RData iv)) (file_reads P, [], [])
             = (Processed (length P), ([], [], encryptBlock iv key @ X)) \<and>
           decryptStream key buf' (file_reads (encryptBlock iv key @ X), [], [])
             = (Processed (length P), ([], [], P))"
proof -
  let ?e = "encryptBlock iv key"
  have le: "length ?e = 8"
    using iv key by (rule length_encryptBlock)
  from loops_roundtrip [OF key le, of "take 8 (drop 8 buf)" P 0 ?e]
  obtain X where X: "length X = length P"
    "encrypt_loop key ?e (take 8 (drop 8 buf)) 0 (file_reads P, [], ?e)
       = (Processed (0 + length P), ([], [], ?e @ X))"
    "\<And>bp' n' out'. length bp' \<le> 8 \<Longrightarrow>
       decrypt_loop key ?e bp' n' (file_reads X, [], out') = (Processed (n' + length P), ([], [], out' @ P))"
    by auto
  have enc: "encryptStream key buf (Some (RData iv)) (file_reads P, [], [])
               = (Processed (length P), ([], [], ?e @ X))"
    using X(2) le by (simp add: encryptStream_start [OF iv])
  have "decryptStream key buf' (file_reads (?e @ X), [], [])
          = decrypt_loop key ?e (take 8 (drop 8 buf')) 0 (file_reads X, [], [])"
    unfolding file_reads_full [OF le] by (rule decryptStream_start [OF le])
  also have "\<dots> = (Processed (length P), ([], [], P))"
    using X(3) [of "take 8 (drop 8 buf')" 0 "[]"] by simp
  finally show ?thesis
    using X(1) enc by blast
qed

lemma encryptStream_start_ws:
  assumes "length iv = 8"
  shows "encryptStream key buf (Some (RData iv)) (rs, ws, out) =
         (case sys_write (encryptBlock iv key) 8 (ws, out) of (ret, ws', out') \<Rightarrow>
            encrypt_loop key (encryptBlock iv key) (take 8 (drop 8 buf)) 0 (rs, ws', out'))"
  using assms
  by (simp add: encryptStream_def BLOCK_SIZE_def store_block Let_def split: prod.splits)

lemma key0: "length (98 # replicate 63 97 :: byte list) = 64"
  by simp

text \<open>
  C1: for every byte sequence \<open>P\<close>, every 64-byte key and every 8 bytes \<open>iv\<close> delivered
  by the entropy source, encryption of the stream \<open>P\<close> succeeds, and decryption of the
  stream of the bytes it wrote succeeds and writes exactly \<open>P\<close>. No I/O error occurs:
  the streams deliver their bytes in full and the writes are complete. The contents of
  the uninitialised buffers (\<open>buf\<close>, \<open>buf'\<close>) are arbitrary.
\<close>

theorem stream_roundtrip:
  assumes "length key = 64" and "length iv = 8"
  shows "fst (encryptStream key buf (Some (RData iv)) (file_reads P, [], [])) = Processed (length P) \<and>
         decryptStream key buf'
           (file_reads (stdout_of (encryptStream key buf (Some (RData iv)) (file_reads P, [], []))),
            [], [])
           = (Processed (length P), ([], [], P))"
  using streams_roundtrip [OF assms, of P buf buf'] by (auto simp: stdout_of_def)

theorem stream_roundtrip_witness:
  "length (98 # replicate 63 97 :: byte list) = 64 \<and> length [1, 2, 3, 4, 5, 6, 7, 8 :: byte] = 8 \<and>
   decryptStream (98 # replicate 63 97) (replicate 24 0)
     (file_reads (stdout_of (encryptStream (98 # replicate 63 97) (replicate 16 0)
        (Some (RData [1, 2, 3, 4, 5, 6, 7, 8]))
        (file_reads [48, 49, 50, 51, 52, 53, 54, 55, 56, 57], [], []))), [], [])
     = (Processed (length [48, 49, 50, 51, 52, 53, 54, 55, 56, 57 :: byte]),
        ([], [], [48, 49, 50, 51, 52, 53, 54, 55, 56, 57]))"
proof -
  have b: "length [1, 2, 3, 4, 5, 6, 7, 8 :: byte] = 8"
    by simp
  from key0 b stream_roundtrip [OF key0 b] show ?thesis
    by blast
qed

text \<open>
  C6: when no I/O error occurs, the ciphertext written for a plaintext \<open>P\<close> has
  \<open>8 + 8 * (length P div 8) + length P mod 8 = length P + 8\<close> bytes, and its first 8 bytes
  are the encrypted initialisation vector; no padding byte is written.
\<close>

theorem ciphertext_length:
  assumes "length key = 64" and "length iv = 8"
  shows "fst (encryptStream key buf (Some (RData iv)) (file_reads P, [], [])) = Processed (length P) \<and>
         length (stdout_of (encryptStream key buf (Some (RData iv)) (file_reads P, [], [])))
           = 8 + 8 * (length P div 8) + length P mod 8 \<and>
         length (stdout_of (encryptStream key buf (Some (RData iv)) (file_reads P, [], [])))
           = length P + 8 \<and>
         take 8 (stdout_of (encryptStream key buf (Some (RData iv)) (file_reads P, [], [])))
           = encryptBlock iv key"
  using streams_roundtrip [OF assms, of P buf buf] length_encryptBlock [OF assms(2,1)]
  by (auto simp: stdout_of_def)

theorem ciphertext_length_witness:
  "length (98 # replicate 63 97 :: byte list) = 64 \<and> length [1, 2, 3, 4, 5, 6, 7, 8 :: byte] = 8 \<and>
   length (stdout_of (encryptStream (98 # replicate 63 97) (replicate 16 0)
        (Some (RData [1, 2, 3, 4, 5, 6, 7, 8]))
        (file_reads [48, 49, 50, 51, 52, 53, 54, 55, 56, 57], [], []))) = 18"
proof -
  have b: "length [1, 2, 3, 4, 5, 6, 7, 8 :: byte] = 8"
    by simp
  from ciphertext_length [OF key0 b, of "replicate 16 0" "[48, 49, 50, 51, 52, 53, 54, 55, 56, 57]"]
  have "length (stdout_of (encryptStream (98 # replicate 63 97) (replicate 16 0)
        (Some (RData [1, 2, 3, 4, 5, 6, 7, 8]))
        (file_reads [48, 49, 50, 51, 52, 53, 54, 55, 56, 57], [], []))) = 18"
    by simp
  with key0 b show ?thesis
    by blast
qed




text \<open>
  C2, as the claim states it, fails: the final partial chunk is passed through
  \<open>decryptBlock\<close>. With the key \<open>baaa...a\<close>, the stored previous block all zero and the
  one-byte tail \<open>5\<close>, the source writes \<open>6\<close>, while the XOR without a block transform
  gives \<open>5\<close>.
\<close>

theorem decrypt_tail_counterexample:
  "stdout_of (decryptStream (98 # replicate 63 97) (replicate 24 0)
      ([RData (replicate 8 0), RData [5] ], [], [])) = [6] \<and>
   spec_decrypt_tail (replicate 8 0) [5] = [5] \<and>
   stdout_of (decryptStream (98 # replicate 63 97) (replicate 24 0)
      ([RData (replicate 8 0), RData [5] ], [], [])) \<noteq> spec_decrypt_tail (replicate 8 0) [5]"
proof -
  let ?key = "98 # replicate 63 97 :: byte list"
  have "decryptStream ?key (replicate 24 0) ([RData (replicate 8 0), RData [5] ], [], [])
          = decrypt_loop ?key (replicate 8 0) (take 8 (drop 8 (replicate 24 0))) 0 ([RData [5] ], [], [])"
    by (rule decryptStream_start) simp
  also have "\<dots> = (Processed (0 + length [5 :: byte]), ([], tl [], [] @ take (length [5 :: byte])
       (decryptBlock (xor_bytes [5] (replicate 8 0) @ replicate (8 - length [5 :: byte]) 0) ?key)))"
    by (rule dec_part_step) simp_all
  also have "decryptBlock (xor_bytes [5] (replicate 8 0) @ replicate (8 - length [5 :: byte]) 0) ?key
               = [6, 0, 0, 0, 0, 0, 0, 0]"
  proof -
    have "xor_bytes [5] (replicate 8 0) @ replicate (8 - length [5 :: byte]) 0
            = [5, 0, 0, 0, 0, 0, 0, 0 :: byte]"
      by (simp add: xor_bytes_def numeral_eq_Suc)
    moreover have "decryptBlock [5, 0, 0, 0, 0, 0, 0, 0] ?key = [6, 0, 0, 0, 0, 0, 0, 0]"
      by code_simp
    ultimately show ?thesis
      by simp
  qed
  finally have run: "decryptStream ?key (replicate 24 0) ([RData (replicate 8 0), RData [5] ], [], [])
                       = (Processed 1, ([], [], [6]))"
    by simp
  have spec: "spec_decrypt_tail (replicate 8 0) [5] = [5]"
    by (simp add: spec_decrypt_tail_def xor_bytes_def BLOCK_SIZE_def numeral_eq_Suc)
  show ?thesis
    unfolding run spec by (simp add: stdout_of_def)
qed

text \<open>
  C2, amended: in decryption, a final partial chunk \<open>c\<close> of 1..7 bytes is XORed byte-wise
  with the first bytes of the previous ciphertext block \<open>lbp\<close>, padded with zeros to 8
  bytes and passed through \<open>decryptBlock\<close>; the first \<open>length c\<close> bytes of the result
  are written and the operation returns.
\<close>

theorem decrypt_partial_block:
  assumes "0 < length c" and "length c < 8" and "length lbp = 8" and "length bp \<le> 8"
    and "full_write ws (length c)"
  shows "decrypt_loop key lbp bp n (RData c # rs, ws, out) =
         (Processed (n + length c), (rs, tl ws, out @ take (length c)
            (decryptBlock (xor_bytes c lbp @ replicate (8 - length c) 0) key)))"
  using assms by (rule dec_part_step)

theorem decrypt_partial_block_witness:
  "0 < length [21, 22 :: byte] \<and> length [21, 22 :: byte] < 8 \<and>
   length [11, 12, 13, 14, 15, 16, 17, 18 :: byte] = 8 \<and> length (replicate 8 0 :: byte list) \<le> 8 \<and>
   full_write [] (length [21, 22 :: byte]) \<and>
   decrypt_loop (98 # replicate 63 97) [11, 12, 13, 14, 15, 16, 17, 18] (replicate 8 0) 8
     (RData [21, 22] # [], [], [9, 14, 14, 10, 10, 22, 22, 26]) =
   (Processed (8 + length [21, 22 :: byte]), ([], tl [], [9, 14, 14, 10, 10, 22, 22, 26] @
      take (length [21, 22 :: byte])
        (decryptBlock (xor_bytes [21, 22] [11, 12, 13, 14, 15, 16, 17, 18]
           @ replicate (8 - length [21, 22 :: byte]) 0) (98 # replicate 63 97))))"
proof -
  have a: "0 < length [21, 22 :: byte]"
    by simp
  have b: "length [21, 22 :: byte] < 8"
    by simp
  have c: "length [11, 12, 13, 14, 15, 16, 17, 18 :: byte] = 8"
    by simp
  have d: "length (replicate 8 0 :: byte list) \<le> 8"
    by simp
  have e: "full_write [] (length [21, 22 :: byte])"
    by simp
  from a b c d e decrypt_partial_block [OF a b c d e] show ?thesis
    by blast
qed

text \<open>
  C9: when the entropy source cannot be opened, or its read fails or delivers fewer than
  8 bytes, \<open>encryptStream\<close> returns the failure value and has written nothing (and read
  nothing from standard input): the world is unchanged.
\<close>

theorem entropy_failure:
  assumes "ent = None \<or> ent = Some RErr \<or> (\<exists>c. ent = Some (RData c) \<and> length c < 8)"
  shows "encryptStream key buf ent w = (Failure, w)"
  using assms by (auto simp: encryptStream_def BLOCK_SIZE_def Let_def)

theorem entropy_failure_witness:
  "encryptStream (98 # replicate 63 97) (replicate 16 0) (Some (RData [1, 2, 3]))
     ([RData [48, 49] ], [], []) = (Failure, ([RData [48, 49] ], [], [])) \<and>
   encryptStream (98 # replicate 63 97) (replicate 16 0) None
     ([RData [48, 49] ], [], []) = (Failure, ([RData [48, 49] ], [], []))"
proof -
  have a: "Some (RData [1, 2, 3]) = None \<or> Some (RData [1, 2, 3]) = Some RErr \<or>
           (\<exists>c. Some (RData [1, 2, 3 :: byte]) = Some (RData c) \<and> length c < 8)"
    by simp
  have b: "(None :: rres option) = None \<or> None = Some RErr \<or>
           (\<exists>c. None = Some (RData c) \<and> length c < 8)"
    by simp
  from entropy_failure [OF a] entropy_failure [OF b] show ?thesis
    by blast
qed





text \<open>
  C4 does not hold of the source. The value returned by the write of the encrypted
  initialisation vector is not inspected, and the decryption loop compares the value
  returned by \<open>write\<close> with \<open>-1\<close> only. So a write that transfers 3 of 8 bytes goes
  unnoticed in both: encryption of the empty stream returns 0, and decryption goes on
  with the next chunk and returns the full count 10 with 5 bytes written.
\<close>

theorem short_writes_go_unnoticed:
  "encryptStream (98 # replicate 63 97) (replicate 16 0) (Some (RData [1, 2, 3, 4, 5, 6, 7, 8]))
     ([], [WAccept 3], []) = (Processed 0, ([], [], [2, 2, 3])) \<and>
   decryptStream (98 # replicate 63 97) (replicate 24 0)
     ([RData [1, 2, 3, 4, 5, 6, 7, 8], RData [11, 12, 13, 14, 15, 16, 17, 18], RData [21, 22] ],
      [WAccept 3], []) = (Processed 10, ([], [], [9, 14, 14, 29, 26]))"
proof -
  let ?key = "98 # replicate 63 97 :: byte list"
  have e: "encryptBlock [1, 2, 3, 4, 5, 6, 7, 8] ?key = [2, 2, 3, 4, 5, 6, 7, 8]"
    by code_simp
  have enc: "encryptStream ?key (replicate 16 0) (Some (RData [1, 2, 3, 4, 5, 6, 7, 8]))
               ([], [WAccept 3], []) = (Processed 0, ([], [], [2, 2, 3]))"
    by (simp add: encryptStream_start_ws e encrypt_loop.simps encrypt_last_def)
  have x: "xor_into 8 [11, 12, 13, 14, 15, 16, 17, 18] [1, 2, 3, 4, 5, 6, 7, 8]
             = [10, 14, 14, 10, 10, 22, 22, 26]"
    by (simp add: xor_into_block xor_bytes_def)
  have d1: "decryptBlock [10, 14, 14, 10, 10, 22, 22, 26] ?key = [9, 14, 14, 10, 10, 22, 22, 26]"
    by code_simp
  have "decryptStream ?key (replicate 24 0)
          ([RData [1, 2, 3, 4, 5, 6, 7, 8], RData [11, 12, 13, 14, 15, 16, 17, 18], RData [21, 22] ],
           [WAccept 3], [])
        = decrypt_loop ?key [1, 2, 3, 4, 5, 6, 7, 8] (take 8 (drop 8 (replicate 24 0))) 0
            ([RData [11, 12, 13, 14, 15, 16, 17, 18], RData [21, 22] ], [WAccept 3], [])"
    by (rule decryptStream_start) simp
  also have "\<dots> = decrypt_loop ?key [11, 12, 13, 14, 15, 16, 17, 18] [1, 2, 3, 4, 5, 6, 7, 8] 8
                      ([RData [21, 22] ], [], [9, 14, 14])"
    by (simp add: decrypt_loop.simps BLOCK_SIZE_def store_def x d1)
  also have "\<dots> = (Processed (8 + length [21, 22 :: byte]), ([], tl [], [9, 14, 14] @
       take (length [21, 22 :: byte])
         (decryptBlock (xor_bytes [21, 22] [11, 12, 13, 14, 15, 16, 17, 18]
             @ replicate (8 - length [21, 22 :: byte]) 0) ?key)))"
    by (rule dec_part_step) simp_all
  also have "decryptBlock (xor_bytes [21, 22] [11, 12, 13, 14, 15, 16, 17, 18]
           @ replicate (8 - length [21, 22 :: byte]) 0) ?key = [29, 26, 0, 0, 0, 0, 0, 0]"
  proof -
    have "xor_bytes [21, 22] [11, 12, 13, 14, 15, 16, 17, 18] @ replicate (8 - length [21, 22 :: byte]) 0
            = [30, 26, 0, 0, 0, 0, 0, 0 :: byte]"
      by (simp add: xor_bytes_def numeral_eq_Suc)
    moreover have "decryptBlock [30, 26, 0, 0, 0, 0, 0, 0] ?key = [29, 26, 0, 0, 0, 0, 0, 0]"
      by code_simp
    ultimately show ?thesis
      by simp
  qed
  finally have dec: "decryptStream ?key (replicate 24 0)
          ([RData [1, 2, 3, 4, 5, 6, 7, 8], RData [11, 12, 13, 14, 15, 16, 17, 18], RData [21, 22] ],
           [WAccept 3], []) = (Processed 10, ([], [], [9, 14, 14, 29, 26]))"
    by simp
  from enc dec show ?thesis
    by (rule conjI)
qed

end
